theory Spec2Isabelle
  imports Main
begin

section \<open>Python classes: own dictionaries, bases and the method resolution order\<close>

text \<open>
  The plugin builds a response class at run time with \<^verbatim>\<open>type(name, bases, dict)\<close> and
  asks whether \<^verbatim>\<open>'json'\<close> is a key of a class's own \<^verbatim>\<open>__dict__\<close>. A class is therefore
  modelled by its name, its list of direct bases and its own dictionary (the members
  written in the class body, as an association list). \<open>Object\<close> is Python's \<^verbatim>\<open>object\<close>;
  every other class has at least one base, as in Python 3. The housekeeping entries
  Python adds to every class dictionary (\<^verbatim>\<open>__module__\<close>, \<^verbatim>\<open>__doc__\<close>) are not modelled:
  none of them is named \<^verbatim>\<open>json\<close>.
\<close>

datatype member =
    Cached_property string
  | Member string

datatype pyclass =
    Object
  | Class string "pyclass list" "(string \<times> member) list"

datatype error =
    TypeError
  | FixtureLookupError
  | ContextError
  | PushError
  | PopError
  | AttributeError

fun class_dict :: "pyclass \<Rightarrow> (string \<times> member) list" where
  "class_dict Object = []"
| "class_dict (Class n bs d) = d"

fun class_bases :: "pyclass \<Rightarrow> pyclass list" where
  "class_bases Object = []"
| "class_bases (Class n bs d) = bs"

text \<open>
  The C3 merge of Python's method resolution order: among the heads of the non-empty
  sequences, the first one that is in the tail of no sequence is taken and removed from
  the front of every sequence; when no head qualifies, the hierarchy is inconsistent
  (Python raises \<^verbatim>\<open>TypeError\<close>).
\<close>

definition c3_candidate :: "'a list list \<Rightarrow> 'a option" where
  "c3_candidate seqs = find (\<lambda>c. list_all (\<lambda>s. c \<notin> set (tl s)) seqs) (map hd seqs)"

definition c3_remove :: "'a \<Rightarrow> 'a list list \<Rightarrow> 'a list list" where
  "c3_remove c seqs = map (\<lambda>s. if hd s = c then tl s else s) seqs"

function c3_merge :: "'a list list \<Rightarrow> 'a list option" where
  "c3_merge seqs =
     (if filter (\<lambda>s. s \<noteq> []) seqs = [] then Some []
      else case c3_candidate (filter (\<lambda>s. s \<noteq> []) seqs) of
             None \<Rightarrow> None
           | Some c \<Rightarrow>
               map_option ((#) c) (c3_merge (c3_remove c (filter (\<lambda>s. s \<noteq> []) seqs))))"
  by pat_completeness auto
termination
proof (relation "measure (\<lambda>seqs. sum_list (map length seqs))")
  show "wf (measure (\<lambda>seqs::'a list list. sum_list (map length seqs)))" by simp
next
  fix seqs :: "'a list list" and c
  let ?ne = "filter (\<lambda>s. s \<noteq> []) seqs"
  assume "c3_candidate ?ne = Some c"
  moreover have "find P xs = Some c \<Longrightarrow> c \<in> set xs" for P and xs :: "'a list"
    by (induction xs) (auto split: if_splits)
  ultimately have "c \<in> set (map hd ?ne)"
    unfolding c3_candidate_def by blast
  then obtain s where s: "s \<in> set ?ne" "hd s = c" by auto
  have le: "sum_list (map length (c3_remove c ss)) \<le> sum_list (map length ss)"
    for ss :: "'a list list"
    by (induction ss) (auto simp: c3_remove_def)
  have lt: "s \<in> set ss \<Longrightarrow> s \<noteq> [] \<Longrightarrow>
      sum_list (map length (c3_remove c ss)) < sum_list (map length ss)"
    for ss :: "'a list list"
  proof (induction ss)
    case Nil
    then show ?case by simp
  next
    case (Cons t ss)
    show ?case
    proof (cases "s = t")
      case True
      with Cons.prems s(2) obtain x xs where "t = x # xs" "x = c" by (cases t) auto
      with le [of ss] show ?thesis by (simp add: c3_remove_def)
    next
      case False
      with Cons have "sum_list (map length (c3_remove c ss)) < sum_list (map length ss)"
        by simp
      moreover have "length (if hd t = c then tl t else t) \<le> length t" by simp
      ultimately show ?thesis unfolding c3_remove_def by (simp del: length_tl)
    qed
  qed
  from s have "sum_list (map length (c3_remove c ?ne)) < sum_list (map length ?ne)"
    by (intro lt) auto
  also have "\<dots> \<le> sum_list (map length seqs)"
    by (induction seqs) auto
  finally show "(c3_remove c ?ne, seqs) \<in> measure (\<lambda>seqs. sum_list (map length seqs))"
    by simp
qed

declare c3_merge.simps [simp del]

text \<open>
  The linearisation of a class: the class itself, then the merge of the linearisations
  of its bases and of the list of bases. A class other than \<open>Object\<close> without bases
  does not exist in Python 3.
\<close>

fun mro :: "pyclass \<Rightarrow> pyclass list option" where
  "mro Object = Some [Object]"
| "mro (Class n bs d) =
     (if bs = [] then None
      else case those (map mro bs) of
             None \<Rightarrow> None
           | Some ls \<Rightarrow> map_option ((#) (Class n bs d)) (c3_merge (ls @ [bs])))"

text \<open>Attribute lookup on a class: the first class of the linearisation whose own
  dictionary has the name.\<close>

fun mro_lookup :: "pyclass list \<Rightarrow> string \<Rightarrow> member option" where
  "mro_lookup [] a = None"
| "mro_lookup (c # cs) a =
     (case map_of (class_dict c) a of Some m \<Rightarrow> Some m | None \<Rightarrow> mro_lookup cs a)"

definition class_getattr :: "pyclass \<Rightarrow> string \<Rightarrow> member option" where
  "class_getattr c a = (case mro c of None \<Rightarrow> None | Some ms \<Rightarrow> mro_lookup ms a)"

text \<open>
  Python's \<^verbatim>\<open>type(name, bases, dict)\<close>: the new class, or \<^verbatim>\<open>TypeError\<close> when its bases
  have no consistent linearisation. An empty tuple of bases stands for \<^verbatim>\<open>(object,)\<close>.
\<close>

definition type_new :: "string \<Rightarrow> pyclass list \<Rightarrow> (string \<times> member) list \<Rightarrow> error + pyclass" where
  "type_new name bases d =
     (let c = Class name (if bases = [] then [Object] else bases) d
      in case mro c of None \<Rightarrow> Inl TypeError | Some ms \<Rightarrow> Inr c)"

section \<open>The response class with a JSON accessor\<close>

text \<open>\<^verbatim>\<open>class JSONResponse(object)\<close> with its one member, the cached property \<^verbatim>\<open>json\<close>.\<close>

definition JSONResponse :: pyclass where
  "JSONResponse = Class ''JSONResponse'' [Object] [(''json'', Cached_property ''json'')]"

text \<open>\<^verbatim>\<open>str(JSONResponse)\<close>, the name the plugin gives to the class it builds.\<close>

definition JSONResponse_str :: string where
  "JSONResponse_str = ''<class 'pytest_flask.plugin.JSONResponse'>''"

definition make_test_response_class :: "pyclass \<Rightarrow> error + pyclass" where
  "make_test_response_class response_class =
     (if map_of (class_dict response_class) ''json'' \<noteq> None then Inr response_class
      else type_new JSONResponse_str [response_class, JSONResponse] [])"

section \<open>The application, the test request and the test run\<close>

datatype val =
    VNone
  | VBool bool
  | VInt int
  | VStr string

text \<open>The application under test, as far as the plugin touches it: the configuration
  mapping and the attribute \<^verbatim>\<open>response_class\<close>.\<close>

record application =
  config :: "string \<Rightarrow> val option"
  response_class :: pyclass

text \<open>A marker attached to a test (\<^verbatim>\<open>pytest.mark.app(debug=False)\<close>): its keyword
  arguments, as the items of the dictionary in iteration order.\<close>

record markinfo =
  args :: "val list"
  kwargs :: "(string \<times> val) list"

text \<open>
  A value of \<^verbatim>\<open>request.keywords\<close>: the marker of that name, or any other value pytest
  keeps under a name. pytest stores \<^verbatim>\<open>True\<close> under the name of every collection node
  the test belongs to, so a test under a node named \<^verbatim>\<open>app\<close> has the keyword
  \<^verbatim>\<open>app\<close> without any marker. \<open>truthy\<close> is Python's truth value: a marker object is
  always true.
\<close>

datatype keyword =
    Mark markinfo
  | Other val

fun val_truthy :: "val \<Rightarrow> bool" where
  "val_truthy VNone = False"
| "val_truthy (VBool b) = b"
| "val_truthy (VInt i) = (i \<noteq> 0)"
| "val_truthy (VStr s) = (s \<noteq> [])"

fun truthy :: "keyword \<Rightarrow> bool" where
  "truthy (Mark m) = True"
| "truthy (Other v) = val_truthy v"

record request =
  fixturenames :: "string list"
  request_keywords :: "string \<Rightarrow> keyword option"

text \<open>
  What the collaborators of the plugin do in one test run is a parameter: whether the
  \<^verbatim>\<open>app\<close> fixture raises, whether \<^verbatim>\<open>app.test_request_context()\<close> raises, and whether
  \<^verbatim>\<open>ctx.push()\<close> and \<^verbatim>\<open>ctx.pop()\<close> raise. A \<^verbatim>\<open>push\<close> that raises has activated nothing.
\<close>

record env =
  app_fixture_raises :: bool
  test_request_context_raises :: bool
  push_raises :: bool
  pop_raises :: bool

text \<open>Request contexts are told apart by a number, fresh for every call of
  \<^verbatim>\<open>test_request_context\<close>. The log records every activation (a \<^verbatim>\<open>push\<close> that returned)
  and every call of \<^verbatim>\<open>pop\<close>.\<close>

datatype event =
    Push nat
  | Pop nat

text \<open>The finalizers a test run registers: the \<^verbatim>\<open>undo\<close> of the \<^verbatim>\<open>monkeypatch\<close> fixture
  and the closure \<^verbatim>\<open>teardown\<close> of \<^verbatim>\<open>_push_application_context\<close> over its context.\<close>

datatype finalizer =
    Monkeypatch_undo
  | Ctx_teardown nat

record run_state =
  the_app :: application
  finalizers :: "finalizer list"
  mp_setattr :: "pyclass list"
  ctx_log :: "event list"
  next_ctx :: nat

definition initial_state :: "application \<Rightarrow> run_state" where
  "initial_state a =
     \<lparr>the_app = a, finalizers = [], mp_setattr = [], ctx_log = [], next_ctx = 0\<rparr>"

text \<open>\<^verbatim>\<open>request.addfinalizer\<close>: the most recent finalizer is the head of the list.\<close>

definition addfinalizer :: "finalizer \<Rightarrow> run_state \<Rightarrow> run_state" where
  "addfinalizer f st = st\<lparr>finalizers := f # finalizers st\<rparr>"

text \<open>
  \<^verbatim>\<open>monkeypatch.setattr(app, 'response_class', value)\<close>: the old value is saved in front
  of the list of saved values, then the attribute is set. \<^verbatim>\<open>monkeypatch.undo()\<close> sets the
  attribute to every saved value in turn, the most recent first, and clears the list.
\<close>

definition monkeypatch_setattr :: "pyclass \<Rightarrow> run_state \<Rightarrow> run_state" where
  "monkeypatch_setattr v st =
     st\<lparr>mp_setattr := response_class (the_app st) # mp_setattr st,
        the_app := (the_app st)\<lparr>response_class := v\<rparr>\<rparr>"

definition monkeypatch_undo :: "run_state \<Rightarrow> run_state" where
  "monkeypatch_undo st =
     st\<lparr>the_app := fold (\<lambda>v a. a\<lparr>response_class := v\<rparr>) (mp_setattr st) (the_app st),
        mp_setattr := []\<rparr>"

subsection \<open>The three autouse fixtures\<close>

definition monkeypatch_response_class ::
  "env \<Rightarrow> request \<Rightarrow> run_state \<Rightarrow> error option \<times> run_state" where
  "monkeypatch_response_class e req st =
     (if ''app'' \<notin> set (fixturenames req) then (None, st)
      else if app_fixture_raises e then (Some FixtureLookupError, st)
      else case make_test_response_class (response_class (the_app st)) of
             Inl err \<Rightarrow> (Some err, st)
           | Inr c \<Rightarrow> (None, monkeypatch_setattr c st))"

definition push_application_context ::
  "env \<Rightarrow> request \<Rightarrow> run_state \<Rightarrow> error option \<times> run_state" where
  "push_application_context e req st =
     (if ''app'' \<notin> set (fixturenames req) then (None, st)
      else if app_fixture_raises e then (Some FixtureLookupError, st)
      else if test_request_context_raises e then (Some ContextError, st)
      else let ctx = next_ctx st;
               st1 = st\<lparr>next_ctx := Suc ctx\<rparr>
           in if push_raises e then (Some PushError, st1)
              else (None, addfinalizer (Ctx_teardown ctx)
                            (st1\<lparr>ctx_log := ctx_log st1 @ [Push ctx]\<rparr>)))"

text \<open>\<^verbatim>\<open>str.upper\<close> on the ASCII letters; keyword argument names are identifiers.\<close>

definition upper_char :: "char \<Rightarrow> char" where
  "upper_char c =
     (let n = of_char c :: nat in if 97 \<le> n \<and> n \<le> 122 then char_of (n - 32) else c)"

definition upper :: "string \<Rightarrow> string" where
  "upper s = map upper_char s"

fun configure_items ::
  "(string \<times> val) list \<Rightarrow> (string \<Rightarrow> val option) \<Rightarrow> (string \<Rightarrow> val option)" where
  "configure_items [] cfg = cfg"
| "configure_items ((key, v) # items) cfg = configure_items items (cfg(upper key \<mapsto> v))"

text \<open>
  \<^verbatim>\<open>options = request.keywords.get('app', None)\<close>, then \<^verbatim>\<open>if options:\<close> and the loop over
  \<^verbatim>\<open>options.kwargs.items()\<close>. A keyword that is true but is not a marker has no attribute
  \<^verbatim>\<open>kwargs\<close>: the loop header raises \<^verbatim>\<open>AttributeError\<close>.
\<close>

definition configure_application ::
  "env \<Rightarrow> request \<Rightarrow> run_state \<Rightarrow> error option \<times> run_state" where
  "configure_application e req st =
     (if ''app'' \<notin> set (fixturenames req) then (None, st)
      else if app_fixture_raises e then (Some FixtureLookupError, st)
      else case request_keywords req ''app'' of
             None \<Rightarrow> (None, st)
           | Some options \<Rightarrow>
               (if \<not> truthy options then (None, st)
                else case options of
                       Other v \<Rightarrow> (Some AttributeError, st)
                     | Mark m \<Rightarrow>
                         (None, st\<lparr>the_app := (the_app st)
                            \<lparr>config := configure_items (kwargs m) (config (the_app st))\<rparr>\<rparr>)))"

subsection \<open>The test runner\<close>

text \<open>
  The runner is pytest, a collaborator of the plugin; its protocol is modelled as far as
  the plugin relies on it. The autouse fixtures are set up one after the other, in an
  order that is a parameter of the run; the \<^verbatim>\<open>monkeypatch\<close> fixture that
  \<^verbatim>\<open>_monkeypatch_response_class\<close> asks for is set up just before it and registers its
  \<^verbatim>\<open>undo\<close>. The first fixture that raises ends the setup, and the test body is not
  called. Whatever happened, the teardown runs every registered finalizer, the most
  recent first, and goes on after a finalizer that raises.
\<close>

datatype fixture =
    Configure_application
  | Monkeypatch_response_class
  | Push_application_context

fun setup_fixture ::
  "env \<Rightarrow> request \<Rightarrow> fixture \<Rightarrow> run_state \<Rightarrow> error option \<times> run_state" where
  "setup_fixture e req Configure_application st = configure_application e req st"
| "setup_fixture e req Monkeypatch_response_class st =
     monkeypatch_response_class e req (addfinalizer Monkeypatch_undo st)"
| "setup_fixture e req Push_application_context st = push_application_context e req st"

fun setup_all ::
  "env \<Rightarrow> request \<Rightarrow> fixture list \<Rightarrow> run_state \<Rightarrow> error option \<times> run_state" where
  "setup_all e req [] st = (None, st)"
| "setup_all e req (f # fs) st =
     (case setup_fixture e req f st of
        (Some err, st') \<Rightarrow> (Some err, st')
      | (None, st') \<Rightarrow> setup_all e req fs st')"

fun run_finalizer :: "env \<Rightarrow> finalizer \<Rightarrow> run_state \<Rightarrow> error option \<times> run_state" where
  "run_finalizer e Monkeypatch_undo st = (None, monkeypatch_undo st)"
| "run_finalizer e (Ctx_teardown ctx) st =
     (if pop_raises e then Some PopError else None, st\<lparr>ctx_log := ctx_log st @ [Pop ctx]\<rparr>)"

fun run_finalizers :: "env \<Rightarrow> finalizer list \<Rightarrow> run_state \<Rightarrow> error list \<times> run_state" where
  "run_finalizers e [] st = ([], st)"
| "run_finalizers e (f # fs) st =
     (case run_finalizer e f st of
        (r, st1) \<Rightarrow>
          (case run_finalizers e fs st1 of
             (errs, st2) \<Rightarrow> ((case r of None \<Rightarrow> errs | Some err \<Rightarrow> err # errs), st2)))"

definition teardown :: "env \<Rightarrow> run_state \<Rightarrow> error list \<times> run_state" where
  "teardown e st = run_finalizers e (finalizers st) (st\<lparr>finalizers := []\<rparr>)"

text \<open>The report of one test: the setup error if any, the outcome of the call of the
  test body if it was called (\<open>True\<close> when it passed), the errors of the teardown, and
  the state the run leaves.\<close>

record report =
  setup_error :: "error option"
  call_passed :: "bool option"
  teardown_errors :: "error list"
  final_state :: run_state

definition run_test ::
  "env \<Rightarrow> fixture list \<Rightarrow> request \<Rightarrow> (application \<Rightarrow> bool \<times> application) \<Rightarrow> application
     \<Rightarrow> report" where
  "run_test e order req body a =
     (case setup_all e req order (initial_state a) of
        (Some err, st1) \<Rightarrow>
          (case teardown e st1 of
             (errs, st2) \<Rightarrow>
               \<lparr>setup_error = Some err, call_passed = None,
                teardown_errors = errs, final_state = st2\<rparr>)
      | (None, st1) \<Rightarrow>
          (case body (the_app st1) of
             (passed, a') \<Rightarrow>
               (case teardown e (st1\<lparr>the_app := a'\<rparr>) of
                  (errs, st2) \<Rightarrow>
                    \<lparr>setup_error = None, call_passed = Some passed,
                     teardown_errors = errs, final_state = st2\<rparr>)))"

text \<open>Two notions used to state properties of a run: the events that are activations,
  and the contexts whose \<^verbatim>\<open>teardown\<close> is among a list of finalizers.\<close>

fun is_push :: "event \<Rightarrow> bool" where
  "is_push (Push ctx) = True"
| "is_push (Pop ctx) = False"

fun pending_contexts :: "finalizer list \<Rightarrow> nat list" where
  "pending_contexts [] = []"
| "pending_contexts (Monkeypatch_undo # fs) = pending_contexts fs"
| "pending_contexts (Ctx_teardown ctx # fs) = ctx # pending_contexts fs"

subsection \<open>A sample test run\<close>

text \<open>
  The test of the plugin's documentation, \<^verbatim>\<open>@pytest.mark.app(debug=False)\<close> on a test that
  asks for \<^verbatim>\<open>app\<close>, on an application whose \<^verbatim>\<open>DEBUG\<close> is set; a request without the
  marker, one without the marker under a collection node named \<^verbatim>\<open>app\<close>, and one that
  does not ask for \<^verbatim>\<open>app\<close>; collaborators that never raise and
  collaborators whose \<^verbatim>\<open>push\<close> raises; and a test body that replaces the response class
  and then fails.
\<close>

definition sample_app :: application where
  "sample_app =
     \<lparr>config = (\<lambda>k. if k = ''DEBUG'' then Some (VBool True) else None),
      response_class = Class ''Response'' [Object] []\<rparr>"

definition sample_request :: request where
  "sample_request =
     \<lparr>fixturenames = [''app'', ''client''],
      request_keywords =
        (\<lambda>k. if k = ''app''
             then Some (Mark \<lparr>args = [], kwargs = [(''debug'', VBool False)]\<rparr>)
             else None)\<rparr>"

definition unmarked_request :: request where
  "unmarked_request = \<lparr>fixturenames = [''app''], request_keywords = (\<lambda>k. None)\<rparr>"

definition node_named_app_request :: request where
  "node_named_app_request =
     \<lparr>fixturenames = [''app''],
      request_keywords = (\<lambda>k. if k = ''app'' then Some (Other (VBool True)) else None)\<rparr>"

definition ungated_request :: request where
  "ungated_request = \<lparr>fixturenames = [''tmpdir''], request_keywords = (\<lambda>k. None)\<rparr>"

definition quiet_env :: env where
  "quiet_env =
     \<lparr>app_fixture_raises = False, test_request_context_raises = False,
      push_raises = False, pop_raises = False\<rparr>"

definition push_failing_env :: env where
  "push_failing_env =
     \<lparr>app_fixture_raises = False, test_request_context_raises = False,
      push_raises = True, pop_raises = False\<rparr>"

definition sample_order :: "fixture list" where
  "sample_order = [Monkeypatch_response_class, Push_application_context, Configure_application]"

definition failing_body :: "application \<Rightarrow> bool \<times> application" where
  "failing_body a = (False, a\<lparr>response_class := Object\<rparr>)"

subsection \<open>Invariants of a run\<close>

text \<open>The log holds exactly the activations of the contexts whose teardown is registered;
  and the response class saved first by \<^verbatim>\<open>monkeypatch\<close> is the original one, with the
  \<^verbatim>\<open>undo\<close> registered.\<close>

definition ctx_inv :: "run_state \<Rightarrow> bool" where
  "ctx_inv st \<longleftrightarrow>
     ctx_log st = map Push (rev (pending_contexts (finalizers st)))
     \<and> distinct (pending_contexts (finalizers st))
     \<and> (\<forall>c \<in> set (pending_contexts (finalizers st)). c < next_ctx st)"

definition slot_inv :: "pyclass \<Rightarrow> run_state \<Rightarrow> bool" where
  "slot_inv orig st \<longleftrightarrow>
     (mp_setattr st = [] \<and> response_class (the_app st) = orig)
     \<or> (mp_setattr st \<noteq> [] \<and> last (mp_setattr st) = orig
        \<and> Monkeypatch_undo \<in> set (finalizers st))"

section \<open>Facts about the method resolution order\<close>

lemma c3_merge_filter: "c3_merge (filter (\<lambda>s. s \<noteq> []) seqs) = c3_merge seqs"
  by (simp add: c3_merge.simps [of seqs] c3_merge.simps [of "filter (\<lambda>s. s \<noteq> []) seqs"]
      cong: option.case_cong)

lemma c3_merge_empty: "filter (\<lambda>s. s \<noteq> []) seqs = [] \<Longrightarrow> c3_merge seqs = Some []"
  by (subst c3_merge.simps) simp

lemma c3_merge_step:
  "filter (\<lambda>s. s \<noteq> []) seqs = ne \<Longrightarrow> ne \<noteq> [] \<Longrightarrow> c3_candidate ne = Some c \<Longrightarrow>
   c3_merge seqs = map_option ((#) c) (c3_merge (c3_remove c ne))"
  by (subst c3_merge.simps) simp

lemma c3_merge_fail:
  "filter (\<lambda>s. s \<noteq> []) seqs = ne \<Longrightarrow> ne \<noteq> [] \<Longrightarrow> c3_candidate ne = None \<Longrightarrow>
   c3_merge seqs = None"
  by (subst c3_merge.simps) simp

lemma find_Some_mem: "find P xs = Some c \<Longrightarrow> c \<in> set xs \<and> P c"
  by (induction xs) (auto split: if_splits)

lemma c3_candidate_props:
  assumes "c3_candidate seqs = Some c"
  shows "c \<in> hd ` set seqs" and "\<forall>s \<in> set seqs. c \<notin> set (tl s)"
  using find_Some_mem [OF assms [unfolded c3_candidate_def]]
  by (auto simp: list_all_iff)

lemma c3_remove_sets:
  assumes "c3_candidate seqs = Some c" and "\<forall>s \<in> set seqs. s \<noteq> []"
  shows "\<Union> (set ` set (c3_remove c seqs)) = \<Union> (set ` set seqs) - {c}"
proof -
  have tl: "\<forall>s \<in> set seqs. c \<notin> set (tl s)" using assms(1) by (rule c3_candidate_props)
  have *: "set (if hd s = c then tl s else s) = set s - {c}" if "s \<in> set seqs" for s
  proof -
    from that assms(2) have "s \<noteq> []" by blast
    then obtain x xs where s: "s = x # xs" by (cases s) auto
    with tl that have "c \<notin> set xs" by auto
    with s show ?thesis by auto
  qed
  have "\<Union> (set ` set (c3_remove c seqs)) = (\<Union>s\<in>set seqs. set (if hd s = c then tl s else s))"
    unfolding c3_remove_def set_map image_image ..
  also have "\<dots> = (\<Union>s\<in>set seqs. set s - {c})" using * by simp
  also have "\<dots> = \<Union> (set ` set seqs) - {c}" by blast
  finally show ?thesis .
qed

lemma c3_merge_sets:
  "c3_merge seqs = Some out \<Longrightarrow> set out = \<Union> (set ` set seqs) \<and> distinct out"
proof (induction seqs arbitrary: out rule: c3_merge.induct)
  case (1 seqs)
  let ?ne = "filter (\<lambda>s. s \<noteq> []) seqs"
  have un: "\<Union> (set ` set ?ne) = \<Union> (set ` set seqs)" by auto
  show ?case
  proof (cases "?ne = []")
    case True
    with "1.prems" have "out = []" by (simp add: c3_merge_empty)
    moreover from True have "\<Union> (set ` set seqs) = {}" using un by (metis Sup_empty image_empty list.set(1))
    ultimately show ?thesis by simp
  next
    case False
    show ?thesis
    proof (cases "c3_candidate ?ne")
      case None
      with False "1.prems" show ?thesis by (simp add: c3_merge_fail)
    next
      case (Some c)
      with False "1.prems" obtain out' where
        out': "c3_merge (c3_remove c ?ne) = Some out'" "out = c # out'"
        by (auto simp: c3_merge_step [OF refl False Some])
      from "1.IH" [OF False Some out'(1)]
      have ih: "set out' = \<Union> (set ` set (c3_remove c ?ne))" "distinct out'" by auto
      have rs: "\<Union> (set ` set (c3_remove c ?ne)) = \<Union> (set ` set ?ne) - {c}"
        by (rule c3_remove_sets [OF Some]) simp
      from c3_candidate_props(1) [OF Some] have "c \<in> \<Union> (set ` set ?ne)"
        by (auto intro: hd_in_set)
      with ih rs out'(2) un show ?thesis by auto
    qed
  qed
qed

lemma those_map_Some:
  "those (map f xs) = Some ls \<Longrightarrow> ls = map (the \<circ> f) xs \<and> (\<forall>x \<in> set xs. f x \<noteq> None)"
  by (induction xs arbitrary: ls) (auto split: option.splits)

lemma those_map_SomeI:
  "(\<forall>x \<in> set xs. f x \<noteq> None) \<Longrightarrow> those (map f xs) = Some (map (the \<circ> f) xs)"
  by (induction xs) auto

lemma mro_hd: "mro c = Some ms \<Longrightarrow> \<exists>t. ms = c # t"
  by (cases c) (auto split: if_splits option.splits)

lemma size_base: "b \<in> set bs \<Longrightarrow> size b < size (Class n bs d)"
  by (induction bs) auto

lemma mro_elems:
  "mro c = Some ms \<Longrightarrow> x \<in> set ms \<Longrightarrow> x = c \<or> size x < size c"
proof (induction c arbitrary: ms x rule: mro.induct)
  case 1
  then show ?case by auto
next
  case (2 n bs d)
  from "2.prems"(1) obtain ls out where
    ne: "bs \<noteq> []" and ls: "those (map mro bs) = Some ls"
    and out: "c3_merge (ls @ [bs]) = Some out" and ms: "ms = Class n bs d # out"
    by (auto split: if_splits option.splits)
  show ?case
  proof (cases "x = Class n bs d")
    case True
    then show ?thesis by simp
  next
    case False
    with ms "2.prems"(2) have "x \<in> set out" by simp
    with c3_merge_sets [OF out] have "x \<in> \<Union> (set ` set ls) \<or> x \<in> set bs" by auto
    then show ?thesis
    proof
      assume "x \<in> \<Union> (set ` set ls)"
      then obtain l where l: "l \<in> set ls" "x \<in> set l" by auto
      from those_map_Some [OF ls] l(1) obtain b where b: "b \<in> set bs" "mro b = Some l"
        by auto
      from "2.IH" [OF ne b(1) b(2) l(2)] have "x = b \<or> size x < size b" .
      with size_base [OF b(1), of n d] show ?thesis by auto
    next
      assume "x \<in> set bs"
      then show ?thesis using size_base [of x bs n d] by simp
    qed
  qed
qed

lemma mro_distinct: "mro c = Some ms \<Longrightarrow> distinct ms"
proof (cases c)
  case Object
  assume "mro c = Some ms"
  with Object show ?thesis by auto
next
  case (Class n bs d)
  assume m: "mro c = Some ms"
  with Class obtain ls out where ls: "those (map mro bs) = Some ls" and
    out: "c3_merge (ls @ [bs]) = Some out" and ms: "ms = c # out"
    by (auto split: if_splits option.splits)
  have sets: "set out = \<Union> (set ` set (ls @ [bs]))" and d: "distinct out"
    using c3_merge_sets [OF out] by blast+
  have "c \<notin> set out"
  proof
    assume "c \<in> set out"
    with sets have "c \<in> \<Union> (set ` set ls) \<or> c \<in> set bs" by auto
    then show False
    proof
      assume "c \<in> \<Union> (set ` set ls)"
      then obtain l where l: "l \<in> set ls" "c \<in> set l" by auto
      from those_map_Some [OF ls] l(1) obtain b where b: "b \<in> set bs" "mro b = Some l"
        by auto
      from mro_elems [OF b(2) l(2)] have "c = b \<or> size c < size b" .
      with size_base [OF b(1), of n d] Class show False by auto
    next
      assume "c \<in> set bs"
      with size_base [of c bs n d] Class show False by simp
    qed
  qed
  with d ms show ?thesis by simp
qed

lemma last_precedes:
  "x \<in> set l \<Longrightarrow> last l = z \<Longrightarrow> x \<noteq> z \<Longrightarrow> z \<in> set (tl (dropWhile (\<lambda>y. y \<noteq> x) l))"
proof (induction l)
  case Nil
  then show ?case by simp
next
  case (Cons a l)
  show ?case
  proof (cases "a = x")
    case True
    with Cons.prems have "l \<noteq> []" by auto
    with Cons.prems True show ?thesis by (auto intro: last_in_set)
  next
    case False
    with Cons show ?thesis by (auto split: if_splits)
  qed
qed

lemma precedes_tl:
  "z \<in> set (tl (dropWhile (\<lambda>y. y \<noteq> x) l)) \<Longrightarrow> z \<in> set (tl l)"
  by (induction l) (auto split: if_splits intro: list.set_sel(2))

lemma c3_merge_last:
  "c3_merge seqs = Some out \<Longrightarrow>
   (\<forall>s \<in> set seqs. \<forall>x \<in> set s. x \<noteq> z \<longrightarrow>
      (\<exists>s' \<in> set seqs. z \<in> set (tl (dropWhile (\<lambda>y. y \<noteq> x) s')))) \<Longrightarrow>
   z \<in> \<Union> (set ` set seqs) \<Longrightarrow> last out = z \<and> out \<noteq> []"
proof (induction seqs arbitrary: out rule: c3_merge.induct)
  case (1 seqs)
  let ?ne = "filter (\<lambda>s. s \<noteq> []) seqs"
  have un: "\<Union> (set ` set ?ne) = \<Union> (set ` set seqs)" by auto
  have Q: "\<exists>s' \<in> set ?ne. z \<in> set (tl (dropWhile (\<lambda>y. y \<noteq> x) s'))"
    if "x \<in> \<Union> (set ` set ?ne)" "x \<noteq> z" for x
  proof -
    from that "1.prems"(2) obtain s' where
      s': "s' \<in> set seqs" "z \<in> set (tl (dropWhile (\<lambda>y. y \<noteq> x) s'))" by auto
    from s'(2) have "s' \<noteq> []" by auto
    with s' show ?thesis by auto
  qed
  from "1.prems"(3) un have zin: "z \<in> \<Union> (set ` set ?ne)" by simp
  then obtain s0 where "s0 \<in> set ?ne" by blast
  then have ne: "?ne \<noteq> []" by (metis empty_iff empty_set)
  show ?case
  proof (cases "c3_candidate ?ne")
    case None
    with ne "1.prems"(1) show ?thesis by (simp add: c3_merge_fail)
  next
    case (Some c)
    with ne "1.prems"(1) obtain out' where
      out': "c3_merge (c3_remove c ?ne) = Some out'" "out = c # out'"
      by (auto simp: c3_merge_step [OF refl ne Some])
    have rs: "\<Union> (set ` set (c3_remove c ?ne)) = \<Union> (set ` set ?ne) - {c}"
      by (rule c3_remove_sets [OF Some]) simp
    have notl: "\<forall>s \<in> set ?ne. c \<notin> set (tl s)" using Some by (rule c3_candidate_props)
    show ?thesis
    proof (cases "c = z")
      case True
      have "x = z" if "x \<in> \<Union> (set ` set ?ne)" for x
      proof (rule ccontr)
        assume "x \<noteq> z"
        from Q [OF that this] obtain s' where
          "s' \<in> set ?ne" "z \<in> set (tl (dropWhile (\<lambda>y. y \<noteq> x) s'))" by blast
        with precedes_tl [of z x s'] notl True show False by blast
      qed
      with rs True have emp: "\<Union> (set ` set (c3_remove c ?ne)) = {}" by blast
      from c3_merge_sets [OF out'(1)]
      have "set out' = \<Union> (set ` set (c3_remove c ?ne))" by (rule conjunct1)
      with emp have "set out' = {}" by (simp only:)
      then have "out' = []" by (simp only: set_empty)
      with out'(2) True show ?thesis by simp
    next
      case False
      from zin rs False have z': "z \<in> \<Union> (set ` set (c3_remove c ?ne))" by simp
      have Q': "\<forall>s \<in> set (c3_remove c ?ne). \<forall>x \<in> set s. x \<noteq> z \<longrightarrow>
          (\<exists>s' \<in> set (c3_remove c ?ne). z \<in> set (tl (dropWhile (\<lambda>y. y \<noteq> x) s')))"
      proof (intro ballI impI)
        fix s x assume sx: "s \<in> set (c3_remove c ?ne)" "x \<in> set s" "x \<noteq> z"
        then have "x \<in> \<Union> (set ` set (c3_remove c ?ne))" by blast
        with rs have xin: "x \<in> \<Union> (set ` set ?ne)" and xc: "x \<noteq> c" by auto
        from Q [OF xin sx(3)] obtain s' where
          s': "s' \<in> set ?ne" "z \<in> set (tl (dropWhile (\<lambda>y. y \<noteq> x) s'))" by blast
        let ?s'' = "if hd s' = c then tl s' else s'"
        from s'(1) have "?s'' \<in> set (c3_remove c ?ne)" unfolding c3_remove_def by simp
        moreover have "dropWhile (\<lambda>y. y \<noteq> x) ?s'' = dropWhile (\<lambda>y. y \<noteq> x) s'"
          using xc s'(2) by (cases s') auto
        ultimately show "\<exists>s' \<in> set (c3_remove c ?ne). z \<in> set (tl (dropWhile (\<lambda>y. y \<noteq> x) s'))"
          using s'(2) by metis
      qed
      from "1.IH" [OF ne Some out'(1) Q' z'] have "last out' = z" "out' \<noteq> []" by auto
      with out'(2) show ?thesis by simp
    qed
  qed
qed

lemma mro_last: "mro c = Some ms \<Longrightarrow> last ms = Object"
proof (induction c arbitrary: ms rule: mro.induct)
  case 1
  then show ?case by auto
next
  case (2 n bs d)
  from "2.prems"(1) obtain ls out where
    ne: "bs \<noteq> []" and ls: "those (map mro bs) = Some ls"
    and out: "c3_merge (ls @ [bs]) = Some out" and ms: "ms = Class n bs d # out"
    by (auto split: if_splits option.splits)
  note tm = those_map_Some [OF ls]
  have base: "\<exists>l \<in> set ls. mro b = Some l \<and> hd l = b \<and> b \<in> set l \<and> last l = Object"
    if "b \<in> set bs" for b
  proof -
    from tm that obtain l where l: "mro b = Some l" "l \<in> set ls" by force
    from mro_hd [OF l(1)] obtain t where "l = b # t" by blast
    with l "2.IH" [OF ne that l(1)] show ?thesis by auto
  qed
  have lsl: "last l = Object \<and> l \<noteq> []" if "l \<in> set ls" for l
  proof -
    from tm that obtain b where "b \<in> set bs" "mro b = Some l" by auto
    with "2.IH" [OF ne this] mro_hd [of b l] show ?thesis by auto
  qed
  have Q: "\<forall>s \<in> set (ls @ [bs]). \<forall>x \<in> set s. x \<noteq> Object \<longrightarrow>
      (\<exists>s' \<in> set (ls @ [bs]). Object \<in> set (tl (dropWhile (\<lambda>y. y \<noteq> x) s')))"
  proof (intro ballI impI)
    fix s x assume sx: "s \<in> set (ls @ [bs])" "x \<in> set s" "x \<noteq> Object"
    show "\<exists>s' \<in> set (ls @ [bs]). Object \<in> set (tl (dropWhile (\<lambda>y. y \<noteq> x) s'))"
    proof (cases "s \<in> set ls")
      case True
      with lsl have "last s = Object" by simp
      from last_precedes [OF sx(2) this sx(3)] True show ?thesis by auto
    next
      case False
      with sx have "x \<in> set bs" by simp
      from base [OF this] obtain l where l: "l \<in> set ls" "x \<in> set l" "last l = Object" by blast
      from last_precedes [OF l(2) l(3) sx(3)] l(1) show ?thesis by auto
    qed
  qed
  from ne obtain b where "b \<in> set bs" by (cases bs) auto
  from base [OF this] obtain l where l: "l \<in> set ls" "b \<in> set l" "last l = Object" by blast
  from l(2) have "l \<noteq> []" by auto
  with l(3) have "Object \<in> set l" using last_in_set [of l] by simp
  with l(1) have "Object \<in> \<Union> (set ` set (ls @ [bs]))" by auto
  from c3_merge_last [OF out Q this] ms show ?case by simp
qed

lemma c3_merge_tail_obj:
  "distinct t \<Longrightarrow> t \<noteq> [] \<Longrightarrow> last t = z \<Longrightarrow> c3_merge [t, [z]] = Some t"
proof (induction t)
  case Nil
  then show ?case by simp
next
  case (Cons x t)
  show ?case
  proof (cases "t = []")
    case True
    with Cons.prems have x: "x = z" by simp
    have "c3_merge [[z], [z]] = map_option ((#) z) (c3_merge (c3_remove z [[z], [z]]))"
      by (rule c3_merge_step) (simp_all add: c3_candidate_def)
    also have "c3_remove z [[z], [z]] = [[], []]" by (simp add: c3_remove_def)
    also have "c3_merge [[], []] = Some []" by (rule c3_merge_empty) simp
    finally show ?thesis using True x by simp
  next
    case False
    with Cons.prems have xz: "x \<noteq> z" and xt: "x \<notin> set t" and lt: "last t = z"
      by (auto dest: last_in_set)
    have "c3_merge [x # t, [z]] = map_option ((#) x) (c3_merge (c3_remove x [x # t, [z]]))"
      by (rule c3_merge_step) (simp_all add: c3_candidate_def xt)
    also have "c3_remove x [x # t, [z]] = [t, [z]]" using xz by (simp add: c3_remove_def)
    also have "c3_merge [t, [z]] = Some t" using Cons.IH False Cons.prems lt by simp
    finally show ?thesis by simp
  qed
qed

lemma c3_merge_tail_obj':
  "distinct t \<Longrightarrow> t \<noteq> [] \<Longrightarrow> last t = z \<Longrightarrow> c3_merge [t, [z], []] = Some t"
  using c3_merge_filter [of "[t, [z], []]"] c3_merge_tail_obj [of t z] by simp

lemma c3_merge_append_mixin:
  "distinct (xs @ [z]) \<Longrightarrow> j \<notin> set xs \<Longrightarrow> j \<noteq> z \<Longrightarrow>
   c3_merge [xs @ [z], [j, z], [j]] = Some (xs @ [j, z])"
proof (induction xs)
  case Nil
  have "c3_merge [[z], [j, z], [j]] = map_option ((#) j) (c3_merge (c3_remove j [[z], [j, z], [j]]))"
    using Nil.prems by (intro c3_merge_step) (simp_all add: c3_candidate_def)
  also have "c3_remove j [[z], [j, z], [j]] = [[z], [z], []]"
    using Nil.prems by (simp add: c3_remove_def)
  also have "c3_merge [[z], [z], []] = Some [z]" by (rule c3_merge_tail_obj') simp_all
  finally show ?case by simp
next
  case (Cons x xs)
  then have xz: "x \<noteq> z" and xj: "x \<noteq> j" and xt: "x \<notin> set xs" by auto
  have "c3_merge [(x # xs) @ [z], [j, z], [j]]
      = map_option ((#) x) (c3_merge (c3_remove x [(x # xs) @ [z], [j, z], [j]]))"
    using xz xj xt by (intro c3_merge_step) (simp_all add: c3_candidate_def)
  also have "c3_remove x [(x # xs) @ [z], [j, z], [j]] = [xs @ [z], [j, z], [j]]"
    using xj by (simp add: c3_remove_def)
  also have "c3_merge [xs @ [z], [j, z], [j]] = Some (xs @ [j, z])"
    using Cons by simp
  finally show ?case by simp
qed

lemma c3_merge_present_mixin:
  "distinct t \<Longrightarrow> last t = z \<Longrightarrow> j \<in> set t \<Longrightarrow> j \<noteq> z \<Longrightarrow>
   c3_merge [t, [j, z], [j]] = Some t"
proof (induction t)
  case Nil
  then show ?case by simp
next
  case (Cons x t)
  from Cons.prems have tne: "t \<noteq> []" by auto
  with Cons.prems have lt: "last t = z" and xt: "x \<notin> set t" and dt: "distinct t" by auto
  from lt tne have "z \<in> set t" using last_in_set by blast
  with xt have xz: "x \<noteq> z" by blast
  show ?case
  proof (cases "x = j")
    case True
    have "c3_merge [x # t, [j, z], [j]]
        = map_option ((#) j) (c3_merge (c3_remove j [x # t, [j, z], [j]]))"
      using True xt Cons.prems(4) by (intro c3_merge_step) (simp_all add: c3_candidate_def)
    also have "c3_remove j [x # t, [j, z], [j]] = [t, [z], []]"
      using True by (simp add: c3_remove_def)
    also have "c3_merge [t, [z], []] = Some t" using dt tne lt by (rule c3_merge_tail_obj')
    finally show ?thesis using True by simp
  next
    case False
    with Cons.prems have jt: "j \<in> set t" by simp
    have "c3_merge [x # t, [j, z], [j]]
        = map_option ((#) x) (c3_merge (c3_remove x [x # t, [j, z], [j]]))"
      using False xt xz by (intro c3_merge_step) (simp_all add: c3_candidate_def)
    also have "c3_remove x [x # t, [j, z], [j]] = [t, [j, z], [j]]"
      using False by (simp add: c3_remove_def)
    also have "c3_merge [t, [j, z], [j]] = Some t"
      using Cons.IH dt lt jt Cons.prems(4) by simp
    finally show ?thesis by simp
  qed
qed

lemma mro_JSONResponse: "mro JSONResponse = Some [JSONResponse, Object]"
proof -
  have "c3_merge [[Object], [Object]] = Some [Object]"
    by (rule c3_merge_tail_obj) simp_all
  then show ?thesis by (simp add: JSONResponse_def)
qed

lemma mro_augmented:
  assumes m: "mro R = Some (R # t)" and ro: "R \<noteq> Object" and rj: "R \<noteq> JSONResponse"
  shows "mro (Class n [R, JSONResponse] d)
     = Some (Class n [R, JSONResponse] d #
         (if JSONResponse \<in> set t then R # t else R # butlast t @ [JSONResponse, Object]))"
proof -
  let ?J = JSONResponse
  from mro_distinct [OF m] have d: "distinct t" "R \<notin> set t" by auto
  from mro_last [OF m] ro have tne: "t \<noteq> []" and lt: "last t = Object"
    by (auto split: if_splits)
  have jo: "?J \<noteq> Object" by (simp add: JSONResponse_def)
  have step: "c3_merge [R # t, [?J, Object], [R, ?J]]
      = map_option ((#) R) (c3_merge (c3_remove R [R # t, [?J, Object], [R, ?J]]))"
    using d ro rj by (intro c3_merge_step) (simp_all add: c3_candidate_def)
  have rem: "c3_remove R [R # t, [?J, Object], [R, ?J]] = [t, [?J, Object], [?J]]"
    using rj by (simp add: c3_remove_def)
  have rest: "c3_merge [t, [?J, Object], [?J]]
      = Some (if ?J \<in> set t then t else butlast t @ [?J, Object])"
  proof (cases "?J \<in> set t")
    case True
    with c3_merge_present_mixin [OF d(1) lt True jo] show ?thesis by simp
  next
    case False
    from tne lt have t: "t = butlast t @ [Object]" by (metis append_butlast_last_id)
    with d(1) have "distinct (butlast t @ [Object])" by simp
    moreover from False have "?J \<notin> set (butlast t)" by (auto dest: in_set_butlastD)
    ultimately have "c3_merge [butlast t @ [Object], [?J, Object], [?J]]
        = Some (butlast t @ [?J, Object])" using jo by (rule c3_merge_append_mixin)
    with t False show ?thesis by simp
  qed
  have "those (map mro [R, ?J]) = Some [R # t, [?J, Object]]"
    by (simp add: m mro_JSONResponse)
  with step rem rest show ?thesis by (auto simp: )
qed

lemma mro_lookup_append:
  "mro_lookup (xs @ ys) a = (case mro_lookup xs a of Some m \<Rightarrow> Some m | None \<Rightarrow> mro_lookup ys a)"
  by (induction xs) (auto split: option.splits)

lemma mro_lookup_member:
  "c \<in> set ms \<Longrightarrow> map_of (class_dict c) a = Some v \<Longrightarrow> mro_lookup ms a \<noteq> None"
  by (induction ms) (auto split: option.splits)

lemma bases_in_mro:
  assumes "mro (Class n bs d) = Some ms"
  shows "set bs \<subseteq> set ms"
proof -
  from assms obtain ls out where
    out: "c3_merge (ls @ [bs]) = Some out" and ms: "ms = Class n bs d # out"
    by (auto split: if_splits option.splits)
  from c3_merge_sets [OF out] have "set bs \<subseteq> set out" by auto
  with ms show ?thesis by auto
qed

lemma class_getattr_augmented:
  assumes m: "mro R = Some ms" and ro: "R \<noteq> Object" and rj: "R \<noteq> JSONResponse"
  shows "class_getattr (Class n [R, JSONResponse] []) a
     = (case class_getattr R a of
          Some v \<Rightarrow> Some v
        | None \<Rightarrow> map_of (class_dict JSONResponse) a)"
proof -
  from mro_hd [OF m] obtain t where ms: "ms = R # t" by blast
  note aug = mro_augmented [OF m [unfolded ms] ro rj, of n "[]"]
  from mro_last [OF m] ms ro have tne: "t \<noteq> []" and lt: "last t = Object"
    by (auto split: if_splits)
  have R: "class_getattr R a = mro_lookup (R # t) a"
    by (simp add: class_getattr_def m ms)
  show ?thesis
  proof (cases "JSONResponse \<in> set t")
    case True
    with aug have W: "class_getattr (Class n [R, JSONResponse] []) a = mro_lookup (R # t) a"
      by (simp add: class_getattr_def)
    show ?thesis
    proof (cases "map_of (class_dict JSONResponse) a")
      case None
      with W R show ?thesis by (simp split: option.splits)
    next
      case (Some v)
      from True have "JSONResponse \<in> set (R # t)" by simp
      from mro_lookup_member [OF this Some] W R show ?thesis by (auto split: option.splits)
    qed
  next
    case False
    from tne lt have t: "t = butlast t @ [Object]" by (metis append_butlast_last_id)
    from False aug have W: "class_getattr (Class n [R, JSONResponse] []) a
        = mro_lookup ((R # butlast t) @ [JSONResponse, Object]) a"
      by (simp add: class_getattr_def)
    have "class_getattr R a = mro_lookup ((R # butlast t) @ [Object]) a"
      using R t by simp
    with W show ?thesis
      by (simp only: mro_lookup_append) (simp split: option.splits)
  qed
qed

lemma type_new_augmented:
  assumes m: "mro R = Some ms" and ro: "R \<noteq> Object" and rj: "R \<noteq> JSONResponse"
  shows "type_new n [R, JSONResponse] d = Inr (Class n [R, JSONResponse] d)"
proof -
  from mro_hd [OF m] obtain t where ms: "ms = R # t" by blast
  from mro_augmented [OF m [unfolded ms] ro rj, of n d] show ?thesis
    by (simp add: type_new_def)
qed

lemma type_new_Inr:
  assumes "type_new n bs d = Inr W" and "bs \<noteq> []"
  shows "W = Class n bs d \<and> (\<exists>ms. mro W = Some ms)"
proof (cases "mro (Class n bs d)")
  case None
  with assms show ?thesis by (simp add: type_new_def del: mro.simps)
next
  case (Some ms)
  with assms show ?thesis by (auto simp add: type_new_def simp del: mro.simps)
qed

section \<open>Facts about a test run\<close>

lemma ctx_inv_initial: "ctx_inv (initial_state a)"
  by (simp add: ctx_inv_def initial_state_def)

lemma ctx_inv_setup_fixture: "ctx_inv st \<Longrightarrow> ctx_inv (snd (setup_fixture e req f st))"
  by (cases f)
    (auto simp: ctx_inv_def configure_application_def monkeypatch_response_class_def
      push_application_context_def addfinalizer_def monkeypatch_setattr_def Let_def
      split: option.splits sum.splits keyword.splits)

lemma setup_all_Cons:
  "setup_all e req (f # fs) st =
     (if fst (setup_fixture e req f st) = None
      then setup_all e req fs (snd (setup_fixture e req f st))
      else setup_fixture e req f st)"
  by (auto split: prod.splits option.splits)

lemma snd_run_finalizers_Cons:
  "snd (run_finalizers e (f # fs) st) = snd (run_finalizers e fs (snd (run_finalizer e f st)))"
  by (simp split: prod.splits)

lemma ctx_inv_setup_all: "ctx_inv st \<Longrightarrow> ctx_inv (snd (setup_all e req order st))"
proof (induction order arbitrary: st)
  case Nil
  then show ?case by simp
next
  case (Cons f fs)
  from ctx_inv_setup_fixture [OF Cons.prems, of e req f] Cons.IH
  show ?case by (simp add: setup_all_Cons del: setup_all.simps setup_fixture.simps)
qed

lemma run_finalizers_log:
  "ctx_log (snd (run_finalizers e fs st)) = ctx_log st @ map Pop (pending_contexts fs)"
proof (induction fs arbitrary: st)
  case Nil
  then show ?case by simp
next
  case (Cons f fs)
  show ?case
    by (cases f) (simp_all only: snd_run_finalizers_Cons Cons.IH, simp_all add: monkeypatch_undo_def)
qed

lemma run_test_final_state:
  "final_state (run_test e order req body a) =
     (let s1 = setup_all e req order (initial_state a);
          st1 = (if fst s1 = None then (snd s1)\<lparr>the_app := snd (body (the_app (snd s1)))\<rparr>
                 else snd s1)
      in snd (teardown e st1))"
  by (auto simp: run_test_def Let_def split: prod.splits option.splits)

lemma run_test_log:
  "\<exists>cs. distinct cs \<and>
     ctx_log (final_state (run_test e order req body a)) = map Push (rev cs) @ map Pop cs"
proof -
  let ?s1 = "setup_all e req order (initial_state a)"
  let ?st1 = "if fst ?s1 = None then (snd ?s1)\<lparr>the_app := snd (body (the_app (snd ?s1)))\<rparr>
                 else snd ?s1"
  from ctx_inv_setup_all [OF ctx_inv_initial, of e req order a]
  have "ctx_inv ?st1" by (simp add: ctx_inv_def)
  then have "distinct (pending_contexts (finalizers ?st1))"
    and "ctx_log (snd (teardown e ?st1))
      = map Push (rev (pending_contexts (finalizers ?st1)))
        @ map Pop (pending_contexts (finalizers ?st1))"
    by (simp_all add: ctx_inv_def teardown_def run_finalizers_log)
  then show ?thesis unfolding run_test_final_state Let_def by blast
qed

lemma count_list_map_Push: "count_list (map Push xs) (Push c) = count_list xs c"
  by (induction xs) auto

lemma count_list_map_Pop: "count_list (map Pop xs) (Pop c) = count_list xs c"
  by (induction xs) auto

lemma count_list_Push_Pop:
  "count_list (map Push xs) (Pop c) = 0" "count_list (map Pop xs) (Push c) = 0"
  by (induction xs) auto

lemma count_list_rev': "count_list (rev xs) c = count_list xs c"
  by (induction xs) auto

lemma distinct_count_le: "distinct xs \<Longrightarrow> count_list xs c \<le> 1"
  by (induction xs) auto

lemma filter_push_shape:
  "filter is_push (map Push xs @ map Pop ys) = map Push xs"
  "filter (\<lambda>ev. \<not> is_push ev) (map Push xs @ map Pop ys) = map Pop ys"
  by (induction xs; induction ys; simp)+

lemma slot_inv_initial: "slot_inv (response_class a) (initial_state a)"
  by (simp add: slot_inv_def initial_state_def)

lemma slot_inv_setup_fixture:
  "slot_inv orig st \<Longrightarrow> slot_inv orig (snd (setup_fixture e req f st))"
  by (cases f)
    (auto simp: slot_inv_def configure_application_def monkeypatch_response_class_def
      push_application_context_def addfinalizer_def monkeypatch_setattr_def Let_def
      split: option.splits sum.splits keyword.splits)

lemma slot_inv_setup_all:
  "slot_inv orig st \<Longrightarrow> slot_inv orig (snd (setup_all e req order st))"
proof (induction order arbitrary: st)
  case Nil
  then show ?case by simp
next
  case (Cons f fs)
  from slot_inv_setup_fixture [OF Cons.prems, of e req f] Cons.IH
  show ?case by (simp add: setup_all_Cons del: setup_all.simps setup_fixture.simps)
qed

lemma mp_setattr_setup_fixture:
  "mp_setattr st \<noteq> [] \<Longrightarrow> mp_setattr (snd (setup_fixture e req f st)) \<noteq> []"
  by (cases f)
    (auto simp: configure_application_def monkeypatch_response_class_def
      push_application_context_def addfinalizer_def monkeypatch_setattr_def Let_def
      split: option.splits sum.splits keyword.splits)

lemma mp_setattr_setup_all:
  "mp_setattr st \<noteq> [] \<Longrightarrow> mp_setattr (snd (setup_all e req order st)) \<noteq> []"
proof (induction order arbitrary: st)
  case Nil
  then show ?case by simp
next
  case (Cons f fs)
  from mp_setattr_setup_fixture [OF Cons.prems, of e req f] Cons.IH
  show ?case by (simp add: setup_all_Cons del: setup_all.simps setup_fixture.simps)
qed

lemma monkeypatch_fixture_saves:
  "''app'' \<in> set (fixturenames req) \<Longrightarrow>
   fst (setup_fixture e req Monkeypatch_response_class st) = None \<Longrightarrow>
   mp_setattr (snd (setup_fixture e req Monkeypatch_response_class st)) \<noteq> []"
  by (auto simp: monkeypatch_response_class_def monkeypatch_setattr_def addfinalizer_def
      split: if_splits sum.splits)

lemma setup_all_saves:
  "''app'' \<in> set (fixturenames req) \<Longrightarrow> Monkeypatch_response_class \<in> set order \<Longrightarrow>
   fst (setup_all e req order st) = None \<Longrightarrow>
   mp_setattr (snd (setup_all e req order st)) \<noteq> []"
proof (induction order arbitrary: st)
  case Nil
  then show ?case by simp
next
  case (Cons f fs)
  let ?s = "setup_fixture e req f st"
  from Cons.prems(3) have ok: "fst ?s = None" and rest: "fst (setup_all e req fs (snd ?s)) = None"
    by (auto simp add: setup_all_Cons simp del: setup_all.simps setup_fixture.simps
        split: if_splits)
  have eq: "setup_all e req (f # fs) st = setup_all e req fs (snd ?s)"
    using ok by (simp add: setup_all_Cons del: setup_all.simps setup_fixture.simps)
  show ?case
  proof (cases "f = Monkeypatch_response_class")
    case True
    with monkeypatch_fixture_saves [OF Cons.prems(1), of e st] ok
    have "mp_setattr (snd ?s) \<noteq> []" by simp
    from mp_setattr_setup_all [OF this] show ?thesis unfolding eq .
  next
    case False
    with Cons.prems(2) have "Monkeypatch_response_class \<in> set fs" by simp
    from Cons.IH [OF Cons.prems(1) this rest] show ?thesis unfolding eq .
  qed
qed

lemma fold_response_class:
  "response_class (fold (\<lambda>v a. a\<lparr>response_class := v\<rparr>) vs a)
     = (if vs = [] then response_class a else last vs)"
  by (induction vs arbitrary: a) auto

lemma run_finalizers_slot:
  "response_class (the_app (snd (run_finalizers e fs st)))
     = (if Monkeypatch_undo \<in> set fs \<and> mp_setattr st \<noteq> [] then last (mp_setattr st)
        else response_class (the_app st))"
proof (induction fs arbitrary: st)
  case Nil
  then show ?case by simp
next
  case (Cons f fs)
  show ?case
  proof (cases f)
    case Monkeypatch_undo
    then show ?thesis
      by (simp only: snd_run_finalizers_Cons Cons.IH)
        (simp add: monkeypatch_undo_def fold_response_class)
  next
    case (Ctx_teardown c)
    then show ?thesis
      by (simp only: snd_run_finalizers_Cons Cons.IH) simp
  qed
qed

lemma sample_aug:
  "make_test_response_class (Class ''Response'' [Object] [])
      = Inr (Class JSONResponse_str [Class ''Response'' [Object] [], JSONResponse] [])"
  by code_simp

lemmas run_defs = run_test_def initial_state_def configure_application_def
  monkeypatch_response_class_def push_application_context_def addfinalizer_def
  monkeypatch_setattr_def monkeypatch_undo_def teardown_def Let_def
  sample_app_def sample_request_def unmarked_request_def ungated_request_def
  node_named_app_request_def
  quiet_env_def push_failing_env_def sample_order_def failing_body_def


lemma ungated_setup_fixture:
  "''app'' \<notin> set (fixturenames req) \<Longrightarrow>
   setup_fixture e req f st
     = (None, if f = Monkeypatch_response_class then addfinalizer Monkeypatch_undo st else st)"
  by (cases f)
    (simp_all add: configure_application_def monkeypatch_response_class_def
      push_application_context_def)

lemma ungated_setup_all:
  "''app'' \<notin> set (fixturenames req) \<Longrightarrow>
   fst (setup_all e req order st) = None
   \<and> the_app (snd (setup_all e req order st)) = the_app st
   \<and> ctx_log (snd (setup_all e req order st)) = ctx_log st
   \<and> mp_setattr (snd (setup_all e req order st)) = mp_setattr st
   \<and> pending_contexts (finalizers (snd (setup_all e req order st)))
       = pending_contexts (finalizers st)"
proof (induction order arbitrary: st)
  case Nil
  then show ?case by simp
next
  case (Cons f fs)
  from Cons.IH [OF Cons.prems, of "snd (setup_fixture e req f st)"] Cons.prems
  show ?case
    by (simp add: setup_all_Cons ungated_setup_fixture addfinalizer_def
        del: setup_all.simps setup_fixture.simps)
qed

lemma run_finalizers_app:
  "mp_setattr st = [] \<Longrightarrow> the_app (snd (run_finalizers e fs st)) = the_app st"
proof (induction fs arbitrary: st)
  case Nil
  then show ?case by simp
next
  case (Cons f fs)
  have "mp_setattr (snd (run_finalizer e f st)) = []"
    "the_app (snd (run_finalizer e f st)) = the_app st"
    using Cons.prems by (cases f; simp add: monkeypatch_undo_def)+
  with Cons.IH [of "snd (run_finalizer e f st)"] show ?case
    by (simp only: snd_run_finalizers_Cons)
qed

lemma run_test_reports:
  "setup_error (run_test e order req body a) = fst (setup_all e req order (initial_state a))"
  "call_passed (run_test e order req body a)
     = (if fst (setup_all e req order (initial_state a)) = None
        then Some (fst (body (the_app (snd (setup_all e req order (initial_state a))))))
        else None)"
proof -
  obtain r st1 where s: "setup_all e req order (initial_state a) = (r, st1)"
    by (cases "setup_all e req order (initial_state a)")
  obtain p a' where b: "body (the_app st1) = (p, a')" by (cases "body (the_app st1)")
  obtain er st2 where t: "teardown e st1 = (er, st2)" by (cases "teardown e st1")
  obtain er' st2' where t': "teardown e (st1\<lparr>the_app := a'\<rparr>) = (er', st2')"
    by (cases "teardown e (st1\<lparr>the_app := a'\<rparr>)")
  show "setup_error (run_test e order req body a) = fst (setup_all e req order (initial_state a))"
    by (cases r) (simp_all add: run_test_def s b t t')
  show "call_passed (run_test e order req body a)
     = (if fst (setup_all e req order (initial_state a)) = None
        then Some (fst (body (the_app (snd (setup_all e req order (initial_state a))))))
        else None)"
    by (cases r) (simp_all add: run_test_def s b t t')
qed




lemma config_setup_fixture:
  "config (the_app (snd (setup_fixture e req f st)))
     = (if f = Configure_application then config (the_app (snd (configure_application e req st)))
        else config (the_app st))"
  by (cases f)
    (auto simp: monkeypatch_response_class_def push_application_context_def addfinalizer_def
      monkeypatch_setattr_def Let_def split: sum.splits)



lemma configure_application_unmarked:
  "request_keywords req ''app'' = None \<Longrightarrow> snd (configure_application e req st) = st"
  by (simp add: configure_application_def)

lemma config_setup_all_unmarked:
  assumes "request_keywords req ''app'' = None"
  shows "config (the_app (snd (setup_all e req order st))) = config (the_app st)"
proof (induction order arbitrary: st)
  case Nil
  then show ?case by simp
next
  case (Cons f fs)
  have "config (the_app (snd (setup_fixture e req f st))) = config (the_app st)"
    by (simp add: config_setup_fixture configure_application_unmarked [OF assms]
        del: setup_fixture.simps)
  with Cons.IH show ?case
    by (simp add: setup_all_Cons del: setup_all.simps setup_fixture.simps)
qed

lemma failing_context_fixture:
  assumes "test_request_context_raises e \<or> push_raises e"
  shows "ctx_log (snd (setup_fixture e req f st)) = ctx_log st
    \<and> pending_contexts (finalizers (snd (setup_fixture e req f st)))
        = pending_contexts (finalizers st)"
  using assms
  by (cases f)
    (auto simp: configure_application_def monkeypatch_response_class_def
      push_application_context_def addfinalizer_def monkeypatch_setattr_def Let_def
      split: option.splits sum.splits keyword.splits)

lemma failing_context_setup_all:
  assumes "test_request_context_raises e \<or> push_raises e"
  shows "ctx_log (snd (setup_all e req order st)) = ctx_log st
    \<and> pending_contexts (finalizers (snd (setup_all e req order st)))
        = pending_contexts (finalizers st)"
proof (induction order arbitrary: st)
  case Nil
  then show ?case by simp
next
  case (Cons f fs)
  from failing_context_fixture [OF assms, of req f st] Cons.IH
  show ?case by (simp add: setup_all_Cons del: setup_all.simps setup_fixture.simps)
qed

lemma failing_context_push:
  assumes "''app'' \<in> set (fixturenames req)"
    and "test_request_context_raises e \<or> push_raises e"
  shows "fst (push_application_context e req st) \<noteq> None"
  using assms by (auto simp: push_application_context_def Let_def)

lemma failing_context_setup_error:
  assumes app: "''app'' \<in> set (fixturenames req)"
    and fail: "test_request_context_raises e \<or> push_raises e"
  shows "Push_application_context \<in> set order \<Longrightarrow> fst (setup_all e req order st) \<noteq> None"
proof (induction order arbitrary: st)
  case Nil
  then show ?case by simp
next
  case (Cons f fs)
  show ?case
  proof (cases "fst (setup_fixture e req f st) = None")
    case False
    then show ?thesis
      by (auto simp add: setup_all_Cons simp del: setup_all.simps setup_fixture.simps)
  next
    case True
    with failing_context_push [OF app fail, of st] have "f \<noteq> Push_application_context"
      by auto
    with Cons.prems have "Push_application_context \<in> set fs" by simp
    from Cons.IH [OF this] True show ?thesis
      by (simp add: setup_all_Cons del: setup_all.simps setup_fixture.simps)
  qed
qed

lemma run_test_setup_failed:
  "fst (setup_all e req order (initial_state a)) \<noteq> None \<Longrightarrow>
   run_test e order req body' a = run_test e order req body a"
  by (cases "setup_all e req order (initial_state a)")
    (auto simp: run_test_def split: option.splits)

section \<open>Properties of the plugin\<close>

text \<open>
  C1: in every test run (whether or not the test asks for \<^verbatim>\<open>app\<close>, and whether the test
  body passes, raises or is never called) the log of the run has as many activations as
  calls of \<^verbatim>\<open>pop\<close>, and every context is popped exactly as often as it was activated,
  which is at most once. An activation is a \<^verbatim>\<open>push\<close> that returned: the plugin registers
  the \<^verbatim>\<open>pop\<close> only after \<^verbatim>\<open>push\<close> has returned.
\<close>

theorem context_symmetry:
  "length (filter is_push (ctx_log (final_state (run_test e order req body a))))
     = length (filter (\<lambda>ev. \<not> is_push ev) (ctx_log (final_state (run_test e order req body a))))
   \<and> (\<forall>ctx. count_list (ctx_log (final_state (run_test e order req body a))) (Pop ctx)
              = count_list (ctx_log (final_state (run_test e order req body a))) (Push ctx)
            \<and> count_list (ctx_log (final_state (run_test e order req body a))) (Push ctx) \<le> 1)"
proof -
  from run_test_log [of e order req body a] obtain cs where
    d: "distinct cs" and
    l: "ctx_log (final_state (run_test e order req body a)) = map Push (rev cs) @ map Pop cs"
    by blast
  show ?thesis
    unfolding l using distinct_count_le [OF d]
    by (simp add: filter_push_shape count_list_map_Push count_list_map_Pop count_list_Push_Pop
        count_list_rev')
qed

theorem context_symmetry_witness:
  "ctx_log (final_state (run_test
       \<lparr>app_fixture_raises = False, test_request_context_raises = False,
        push_raises = False, pop_raises = False\<rparr>
       [Configure_application, Monkeypatch_response_class, Push_application_context]
       \<lparr>fixturenames = [''app''], request_keywords = (\<lambda>k. None)\<rparr>
       (\<lambda>a. (False, a))
       \<lparr>config = (\<lambda>k. None), response_class = Class ''Response'' [Object] []\<rparr>))
     = [Push 0, Pop 0]
   \<and> length (filter is_push (ctx_log (final_state (run_test
       \<lparr>app_fixture_raises = False, test_request_context_raises = False,
        push_raises = False, pop_raises = False\<rparr>
       [Configure_application, Monkeypatch_response_class, Push_application_context]
       \<lparr>fixturenames = [''app''], request_keywords = (\<lambda>k. None)\<rparr>
       (\<lambda>a. (False, a))
       \<lparr>config = (\<lambda>k. None), response_class = Class ''Response'' [Object] []\<rparr>))))
     = length (filter (\<lambda>ev. \<not> is_push ev) (ctx_log (final_state (run_test
       \<lparr>app_fixture_raises = False, test_request_context_raises = False,
        push_raises = False, pop_raises = False\<rparr>
       [Configure_application, Monkeypatch_response_class, Push_application_context]
       \<lparr>fixturenames = [''app''], request_keywords = (\<lambda>k. None)\<rparr>
       (\<lambda>a. (False, a))
       \<lparr>config = (\<lambda>k. None), response_class = Class ''Response'' [Object] []\<rparr>))))"
proof -
  let ?r = "run_test
       \<lparr>app_fixture_raises = False, test_request_context_raises = False,
        push_raises = False, pop_raises = False\<rparr>
       [Configure_application, Monkeypatch_response_class, Push_application_context]
       \<lparr>fixturenames = [''app''], request_keywords = (\<lambda>k. None)\<rparr>
       (\<lambda>a. (False, a))
       \<lparr>config = (\<lambda>k. None), response_class = Class ''Response'' [Object] []\<rparr>"
  have aug: "make_test_response_class (Class ''Response'' [Object] [])
      = Inr (Class JSONResponse_str [Class ''Response'' [Object] [], JSONResponse] [])"
    by code_simp
  have "ctx_log (final_state ?r) = [Push 0, Pop 0]"
    by (simp add: run_test_def initial_state_def configure_application_def
        monkeypatch_response_class_def push_application_context_def addfinalizer_def
        monkeypatch_setattr_def monkeypatch_undo_def teardown_def aug Let_def)
  with context_symmetry [of
       "\<lparr>app_fixture_raises = False, test_request_context_raises = False,
        push_raises = False, pop_raises = False\<rparr>"
       "[Configure_application, Monkeypatch_response_class, Push_application_context]"
       "\<lparr>fixturenames = [''app''], request_keywords = (\<lambda>k. None)\<rparr>"
       "(\<lambda>a. (False, a))"
       "\<lparr>config = (\<lambda>k. None), response_class = Class ''Response'' [Object] []\<rparr>"]
  show ?thesis by simp
qed

text \<open>
  C2: for a test that asks for \<^verbatim>\<open>app\<close>, the application's \<^verbatim>\<open>response_class\<close> after the
  run is the one it had before the run, whatever the test body did to it and whether the
  body passed, failed, or was not called because a fixture raised during the setup.
\<close>

theorem response_class_restored:
  assumes app: "''app'' \<in> set (fixturenames req)"
    and mp: "Monkeypatch_response_class \<in> set order"
  shows "response_class (the_app (final_state (run_test e order req body a))) = response_class a"
proof -
  let ?s1 = "setup_all e req order (initial_state a)"
  have inv: "slot_inv (response_class a) (snd ?s1)"
    by (rule slot_inv_setup_all [OF slot_inv_initial])
  show ?thesis
  proof (cases "fst ?s1 = None")
    case True
    from setup_all_saves [OF app mp True] inv
    have "mp_setattr (snd ?s1) \<noteq> []" "last (mp_setattr (snd ?s1)) = response_class a"
      "Monkeypatch_undo \<in> set (finalizers (snd ?s1))"
      by (auto simp: slot_inv_def)
    with True show ?thesis
      by (simp add: run_test_final_state teardown_def run_finalizers_slot Let_def)
  next
    case False
    with inv show ?thesis
      by (auto simp: run_test_final_state teardown_def run_finalizers_slot slot_inv_def Let_def)
  qed
qed

theorem response_class_restored_witness:
  "''app'' \<in> set (fixturenames sample_request)
   \<and> Monkeypatch_response_class \<in> set sample_order
   \<and> call_passed (run_test quiet_env sample_order sample_request failing_body sample_app)
       = Some False
   \<and> response_class (the_app (final_state
        (run_test quiet_env sample_order sample_request failing_body sample_app)))
       = Class ''Response'' [Object] []"
proof -
  have a: "''app'' \<in> set (fixturenames sample_request)" by (simp add: sample_request_def)
  have m: "Monkeypatch_response_class \<in> set sample_order" by (simp add: sample_order_def)
  have c: "call_passed (run_test quiet_env sample_order sample_request failing_body sample_app)
       = Some False"
    by (simp add: run_defs sample_aug)
  from response_class_restored [OF a m, of quiet_env failing_body sample_app] a m c
  show ?thesis by (simp add: sample_app_def)
qed

text \<open>
  C3, as the code has it: augmenting a class that a previous augmentation built is not a
  no-op. The wrapper \<open>W\<close> built for a class without a \<^verbatim>\<open>json\<close> of its own has an empty
  dictionary of its own (its \<^verbatim>\<open>json\<close> comes from its base \<^verbatim>\<open>JSONResponse\<close>), so the check
  of the own dictionary does not recognise it: the second augmentation returns a further
  class, different from \<open>W\<close>, whose bases are \<open>W\<close> and \<^verbatim>\<open>JSONResponse\<close>. The second
  layer changes no attribute lookup: every name resolves through it as through \<open>W\<close>.
\<close>

theorem augmenting_wrapper_adds_layer:
  assumes own: "map_of (class_dict R) ''json'' = None"
    and aug: "make_test_response_class R = Inr W"
  shows "W = Class JSONResponse_str [R, JSONResponse] []
    \<and> make_test_response_class W = Inr (Class JSONResponse_str [W, JSONResponse] [])
    \<and> Class JSONResponse_str [W, JSONResponse] [] \<noteq> W
    \<and> (\<forall>a. class_getattr (Class JSONResponse_str [W, JSONResponse] []) a = class_getattr W a)"
proof -
  from own aug have tn: "type_new JSONResponse_str [R, JSONResponse] [] = Inr W"
    by (simp add: make_test_response_class_def)
  from type_new_Inr [OF tn] have W: "W = Class JSONResponse_str [R, JSONResponse] []"
    by simp
  from type_new_Inr [OF tn] obtain ms where m: "mro W = Some ms" by auto
  from W have wo: "W \<noteq> Object" and wj: "W \<noteq> JSONResponse"
    by (simp_all add: JSONResponse_def)
  from W have wown: "map_of (class_dict W) ''json'' = None" by simp
  have jin: "JSONResponse \<in> set ms" using bases_in_mro [OF m [unfolded W]] by simp
  have ne: "Class JSONResponse_str [W, JSONResponse] [] \<noteq> W"
  proof
    assume "Class JSONResponse_str [W, JSONResponse] [] = W"
    then have "size (Class JSONResponse_str [W, JSONResponse] []) = size W" by simp
    then show False by simp
  qed
  have get: "class_getattr (Class JSONResponse_str [W, JSONResponse] []) a = class_getattr W a"
    for a
  proof (cases "class_getattr W a")
    case (Some v)
    with class_getattr_augmented [OF m wo wj, of JSONResponse_str a] show ?thesis by simp
  next
    case None
    then have "mro_lookup ms a = None" by (simp add: class_getattr_def m)
    with mro_lookup_member [OF jin, of a] have "map_of (class_dict JSONResponse) a = None"
      by (cases "map_of (class_dict JSONResponse) a") auto
    with None class_getattr_augmented [OF m wo wj, of JSONResponse_str a] show ?thesis by simp
  qed
  from type_new_augmented [OF m wo wj] wown
  have "make_test_response_class W = Inr (Class JSONResponse_str [W, JSONResponse] [])"
    by (simp add: make_test_response_class_def)
  with W ne get show ?thesis by blast
qed

theorem augmenting_wrapper_adds_layer_witness:
  "map_of (class_dict (Class ''Response'' [Object] [])) ''json'' = None
   \<and> make_test_response_class (Class ''Response'' [Object] [])
       = Inr (Class JSONResponse_str [Class ''Response'' [Object] [], JSONResponse] [])
   \<and> make_test_response_class
         (Class JSONResponse_str [Class ''Response'' [Object] [], JSONResponse] [])
       = Inr (Class JSONResponse_str
           [Class JSONResponse_str [Class ''Response'' [Object] [], JSONResponse] [],
            JSONResponse] [])"
proof -
  let ?R = "Class ''Response'' [Object] []"
  have own: "map_of (class_dict ?R) ''json'' = None" by simp
  have aug: "make_test_response_class ?R
      = Inr (Class JSONResponse_str [?R, JSONResponse] [])" by code_simp
  from augmenting_wrapper_adds_layer [OF own aug] own aug show ?thesis by simp
qed

theorem augmenting_wrapper_not_noop_counterexample:
  "make_test_response_class (Class ''Response'' [Object] [])
       = Inr (Class JSONResponse_str [Class ''Response'' [Object] [], JSONResponse] [])
   \<and> make_test_response_class
         (Class JSONResponse_str [Class ''Response'' [Object] [], JSONResponse] [])
       \<noteq> Inr (Class JSONResponse_str [Class ''Response'' [Object] [], JSONResponse] [])"
  by code_simp

text \<open>
  C4: a response class whose own dictionary already has the member \<^verbatim>\<open>json\<close> is
  returned by the augmentation as it is: the result is the input value itself, so the
  user's own definition of \<^verbatim>\<open>json\<close> stays in place.
\<close>

theorem make_test_response_class_keeps_own_json:
  assumes "map_of (class_dict cls) ''json'' = Some m"
  shows "make_test_response_class cls = Inr cls"
  using assms by (simp add: make_test_response_class_def)

theorem make_test_response_class_keeps_own_json_witness:
  "map_of (class_dict (Class ''MyResponse'' [Object] [(''json'', Member ''my_json'')])) ''json''
     = Some (Member ''my_json'')
   \<and> make_test_response_class (Class ''MyResponse'' [Object] [(''json'', Member ''my_json'')])
     = Inr (Class ''MyResponse'' [Object] [(''json'', Member ''my_json'')])"
  using make_test_response_class_keeps_own_json
    [of "Class ''MyResponse'' [Object] [(''json'', Member ''my_json'')]" "Member ''my_json''"]
  by simp

text \<open>
  C5: for a test that does not ask for \<^verbatim>\<open>app\<close>, the setup of the three fixtures never
  fails and leaves the application (its configuration and its response class) and the
  log of contexts as they were; the test body is called on the untouched application, and
  after the teardown the application is what the body left and no context was pushed or
  popped.
\<close>

theorem gating_leaves_application_untouched:
  assumes "''app'' \<notin> set (fixturenames req)"
  shows "fst (setup_all e req order (initial_state a)) = None
    \<and> the_app (snd (setup_all e req order (initial_state a))) = a
    \<and> ctx_log (snd (setup_all e req order (initial_state a))) = []
    \<and> call_passed (run_test e order req body a) = Some (fst (body a))
    \<and> the_app (final_state (run_test e order req body a)) = snd (body a)
    \<and> ctx_log (final_state (run_test e order req body a)) = []"
proof -
  let ?s1 = "setup_all e req order (initial_state a)"
  note u = ungated_setup_all [OF assms, of e order "initial_state a"]
  from u have s: "fst ?s1 = None" "the_app (snd ?s1) = a" "ctx_log (snd ?s1) = []"
    "mp_setattr (snd ?s1) = []" "pending_contexts (finalizers (snd ?s1)) = []"
    by (simp_all add: initial_state_def)
  have cp: "call_passed (run_test e order req body a) = Some (fst (body a))"
    using s(1,2) by (simp add: run_test_reports)
  have app: "the_app (final_state (run_test e order req body a)) = snd (body a)"
    using s(1,2,4)
    by (simp add: run_test_final_state Let_def teardown_def run_finalizers_app)
  have log: "ctx_log (final_state (run_test e order req body a)) = []"
    using s(1,3,5)
    by (simp add: run_test_final_state Let_def teardown_def run_finalizers_log)
  from s cp app log show ?thesis by simp
qed

theorem gating_leaves_application_untouched_witness:
  "''app'' \<notin> set (fixturenames ungated_request)
   \<and> the_app (snd (setup_all quiet_env ungated_request sample_order (initial_state sample_app)))
       = sample_app
   \<and> ctx_log (final_state
        (run_test quiet_env sample_order ungated_request failing_body sample_app)) = []
   \<and> the_app (final_state
        (run_test quiet_env sample_order ungated_request failing_body sample_app))
       = sample_app\<lparr>response_class := Object\<rparr>"
proof -
  have g: "''app'' \<notin> set (fixturenames ungated_request)"
    by (simp add: ungated_request_def)
  from gating_leaves_application_untouched [OF g, of quiet_env sample_order sample_app failing_body] g
  show ?thesis by (simp add: failing_body_def)
qed



text \<open>
  C8: a test that asks for \<^verbatim>\<open>app\<close> and carries no marker \<^verbatim>\<open>app\<close> is to be left alone
  by the configuration fixture. The code does that when \<^verbatim>\<open>request.keywords\<close> has no entry
  \<^verbatim>\<open>app\<close> (lemma \<open>configure_application_unmarked\<close>). For an unmarked test under a
  collection node named \<^verbatim>\<open>app\<close> the entry is \<^verbatim>\<open>True\<close>: the guard \<^verbatim>\<open>if options:\<close> lets it
  through, \<^verbatim>\<open>options.kwargs\<close> raises \<^verbatim>\<open>AttributeError\<close>, the run reports a setup error
  and the test body is not called.
\<close>

theorem unmarked_test_under_node_named_app_fails:
  "''app'' \<in> set (fixturenames node_named_app_request)
   \<and> request_keywords node_named_app_request ''app'' = Some (Other (VBool True))
   \<and> configure_application quiet_env node_named_app_request (initial_state sample_app)
       = (Some AttributeError, initial_state sample_app)
   \<and> setup_error
        (run_test quiet_env sample_order node_named_app_request failing_body sample_app)
       = Some AttributeError
   \<and> call_passed
        (run_test quiet_env sample_order node_named_app_request failing_body sample_app)
       = None"
  by (simp add: run_defs sample_aug)

text \<open>
  C9: when the test asks for \<^verbatim>\<open>app\<close> and \<^verbatim>\<open>test_request_context\<close> or \<^verbatim>\<open>push\<close> raises,
  the run reports a setup error, the test body is not called (the report does not depend
  on it), no \<^verbatim>\<open>teardown\<close> of a context is registered and no context is pushed or popped
  in the whole run. The fixture itself returns the error of the context and registers
  nothing.
\<close>

theorem context_failure_is_setup_error:
  assumes app: "''app'' \<in> set (fixturenames req)"
    and push: "Push_application_context \<in> set order"
    and fail: "test_request_context_raises e \<or> push_raises e"
  shows "(\<exists>err. setup_error (run_test e order req body a) = Some err)
    \<and> call_passed (run_test e order req body a) = None
    \<and> run_test e order req body' a = run_test e order req body a
    \<and> pending_contexts (finalizers (snd (setup_all e req order (initial_state a)))) = []
    \<and> ctx_log (final_state (run_test e order req body a)) = []
    \<and> (\<not> app_fixture_raises e \<longrightarrow>
         fst (push_application_context e req st)
           = Some (if test_request_context_raises e then ContextError else PushError)
         \<and> finalizers (snd (push_application_context e req st)) = finalizers st
         \<and> ctx_log (snd (push_application_context e req st)) = ctx_log st)"
proof -
  let ?s1 = "setup_all e req order (initial_state a)"
  from failing_context_setup_error [OF app fail push] have ne: "fst ?s1 \<noteq> None" .
  then have se: "\<exists>err. setup_error (run_test e order req body a) = Some err"
    by (auto simp: run_test_reports)
  from ne have cp: "call_passed (run_test e order req body a) = None"
    by (simp add: run_test_reports)
  from failing_context_setup_all [OF fail, of req order "initial_state a"]
  have s: "ctx_log (snd ?s1) = []" "pending_contexts (finalizers (snd ?s1)) = []"
    by (simp_all add: initial_state_def)
  from ne s have log: "ctx_log (final_state (run_test e order req body a)) = []"
    by (simp add: run_test_final_state Let_def teardown_def run_finalizers_log)
  have fx: "fst (push_application_context e req st)
           = Some (if test_request_context_raises e then ContextError else PushError)
         \<and> finalizers (snd (push_application_context e req st)) = finalizers st
         \<and> ctx_log (snd (push_application_context e req st)) = ctx_log st"
    if "\<not> app_fixture_raises e"
    using that app fail by (auto simp: push_application_context_def Let_def)
  from se cp run_test_setup_failed [OF ne] s(2) log fx show ?thesis by blast
qed

theorem context_failure_is_setup_error_witness:
  "''app'' \<in> set (fixturenames sample_request)
   \<and> Push_application_context \<in> set sample_order
   \<and> (test_request_context_raises push_failing_env \<or> push_raises push_failing_env)
   \<and> setup_error (run_test push_failing_env sample_order sample_request failing_body sample_app)
       = Some PushError
   \<and> call_passed (run_test push_failing_env sample_order sample_request failing_body sample_app)
       = None
   \<and> ctx_log (final_state
        (run_test push_failing_env sample_order sample_request failing_body sample_app)) = []"
proof -
  have a: "''app'' \<in> set (fixturenames sample_request)" by (simp add: sample_request_def)
  have p: "Push_application_context \<in> set sample_order" by (simp add: sample_order_def)
  have f: "test_request_context_raises push_failing_env \<or> push_raises push_failing_env"
    by (simp add: push_failing_env_def)
  have e: "setup_error
      (run_test push_failing_env sample_order sample_request failing_body sample_app)
       = Some PushError"
    by (simp add: run_defs sample_aug)
  from context_failure_is_setup_error [OF a p f, of failing_body sample_app]
  have "call_passed (run_test push_failing_env sample_order sample_request failing_body sample_app)
       = None"
    and "ctx_log (final_state
        (run_test push_failing_env sample_order sample_request failing_body sample_app)) = []"
    by blast+
  with a p f e show ?thesis by (simp only: simp_thms)
qed

text \<open>
  C10: the check of the augmentation looks at the class's own dictionary only. A class
  that has no \<^verbatim>\<open>json\<close> of its own but inherits one from a base class is still wrapped:
  the augmentation returns a new class whose bases are the original class, first, and
  \<^verbatim>\<open>JSONResponse\<close>. Every name that resolves through the original class resolves to the
  same member through the wrapper; in particular \<^verbatim>\<open>json\<close> resolves to the inherited
  member and not to the accessor that \<^verbatim>\<open>JSONResponse\<close> adds.
\<close>

theorem inherited_json_still_wrapped:
  assumes own: "map_of (class_dict R) ''json'' = None"
    and inh: "class_getattr R ''json'' = Some m"
  shows "make_test_response_class R = Inr (Class JSONResponse_str [R, JSONResponse] [])
    \<and> hd (class_bases (Class JSONResponse_str [R, JSONResponse] [])) = R
    \<and> Class JSONResponse_str [R, JSONResponse] [] \<noteq> R
    \<and> class_getattr (Class JSONResponse_str [R, JSONResponse] []) ''json'' = Some m
    \<and> (\<forall>a v. class_getattr R a = Some v \<longrightarrow>
          class_getattr (Class JSONResponse_str [R, JSONResponse] []) a = Some v)"
proof -
  from inh obtain ms where m: "mro R = Some ms"
    by (auto simp: class_getattr_def split: option.splits)
  from inh have ro: "R \<noteq> Object" by (auto simp: class_getattr_def)
  from own have rj: "R \<noteq> JSONResponse" by (auto simp: JSONResponse_def)
  have ne: "Class JSONResponse_str [R, JSONResponse] [] \<noteq> R"
  proof
    assume "Class JSONResponse_str [R, JSONResponse] [] = R"
    then have "size (Class JSONResponse_str [R, JSONResponse] []) = size R" by simp
    then show False by simp
  qed
  from type_new_augmented [OF m ro rj] own
  have "make_test_response_class R = Inr (Class JSONResponse_str [R, JSONResponse] [])"
    by (simp add: make_test_response_class_def)
  moreover note ne
  ultimately show ?thesis
    using class_getattr_augmented [OF m ro rj, of JSONResponse_str] inh by simp
qed

theorem inherited_json_still_wrapped_witness:
  "map_of (class_dict (Class ''MyResponse''
       [Class ''Base'' [Object] [(''json'', Member ''base_json'')]] [])) ''json'' = None
   \<and> class_getattr (Class ''MyResponse''
       [Class ''Base'' [Object] [(''json'', Member ''base_json'')]] []) ''json''
       = Some (Member ''base_json'')
   \<and> make_test_response_class (Class ''MyResponse''
       [Class ''Base'' [Object] [(''json'', Member ''base_json'')]] [])
       = Inr (Class JSONResponse_str
           [Class ''MyResponse'' [Class ''Base'' [Object] [(''json'', Member ''base_json'')]] [],
            JSONResponse] [])
   \<and> class_getattr (Class JSONResponse_str
           [Class ''MyResponse'' [Class ''Base'' [Object] [(''json'', Member ''base_json'')]] [],
            JSONResponse] []) ''json'' = Some (Member ''base_json'')"
proof -
  let ?R = "Class ''MyResponse'' [Class ''Base'' [Object] [(''json'', Member ''base_json'')]] []"
  have own: "map_of (class_dict ?R) ''json'' = None" by simp
  have inh: "class_getattr ?R ''json'' = Some (Member ''base_json'')" by code_simp
  from inherited_json_still_wrapped [OF own inh] own inh show ?thesis by simp
qed

end
